theory Spec2Isabelle
  imports Main
begin

section \<open>Mastermind: codes, peg scores and the minimax guess selector\<close>

text \<open>
  A shallow embedding of \<^verbatim>\<open>main.py\<close>. Python exceptions are values of the type
  \<open>error\<close>; a function that may raise returns \<open>error + 'a\<close> with \<open>Inl\<close> for the
  exception. A Python \<^verbatim>\<open>set\<close> of codes is a list without duplicates whose order stands
  for the (arbitrary) iteration order of the set: \<^verbatim>\<open>pop()\<close> takes the first element of
  that order, \<^verbatim>\<open>for u in s\<close> walks it. Set objects live in a store indexed by
  references, because the game drivers bind two variables to one set object.
\<close>

subsection \<open>Exceptions\<close>

datatype error =
    Exception string  \<comment> \<open>\<^verbatim>\<open>raise Exception(msg)\<close>\<close>
  | KeyError          \<comment> \<open>\<^verbatim>\<open>set.remove\<close> of an absent element\<close>
  | IndexError        \<comment> \<open>\<^verbatim>\<open>xs[0]\<close> on an empty list\<close>

subsection \<open>class Code\<close>

datatype Code = Code (peg1: int) (peg2: int) (peg3: int) (peg4: int)

definition CODE_PEG_COLORS :: "int list" where
  "CODE_PEG_COLORS = [1, 2, 3, 4, 5, 6]"

text \<open>\<^verbatim>\<open>Code.__init__\<close>: four pegs, each one of the six colours, or an exception.\<close>

definition Code_init :: "int list \<Rightarrow> error + Code" where
  "Code_init peg_array =
     (if (\<forall>elt \<in> set peg_array. elt \<in> set CODE_PEG_COLORS) \<and> length peg_array = 4
      then Inr (Code (peg_array ! 0) (peg_array ! 1) (peg_array ! 2) (peg_array ! 3))
      else Inl (Exception ''Code must be initialized with a list of four code peg colors''))"

text \<open>The codes that the constructor can build: every \<^verbatim>\<open>Code\<close> object of a run is one.\<close>

definition valid_code :: "Code \<Rightarrow> bool" where
  "valid_code c =
     (peg1 c \<in> set CODE_PEG_COLORS \<and> peg2 c \<in> set CODE_PEG_COLORS \<and>
      peg3 c \<in> set CODE_PEG_COLORS \<and> peg4 c \<in> set CODE_PEG_COLORS)"

definition to_number :: "Code \<Rightarrow> int" where
  "to_number c = peg1 c * 1000 + peg2 c * 100 + peg3 c * 10 + peg4 c"

text \<open>\<^verbatim>\<open>Code.__eq__\<close> compares the numeric encodings (both operands are codes).\<close>

definition Code_eq :: "Code \<Rightarrow> Code \<Rightarrow> bool" where
  "Code_eq self other = (to_number self = to_number other)"

text \<open>\<^verbatim>\<open>c in s\<close> for a set \<open>s\<close> of codes: some element compares equal to \<open>c\<close>.\<close>

definition code_in :: "Code \<Rightarrow> Code list \<Rightarrow> bool" where
  "code_in c s = list_ex (\<lambda>x. Code_eq x c) s"

text \<open>
  \<^verbatim>\<open>Code.get_full_code_set\<close>: the four nested loops over the colours. Every
  \<^verbatim>\<open>Code([p1, p2, p3, p4])\<close> built there succeeds and is new to the set.
\<close>

definition get_full_code_set :: "Code list" where
  "get_full_code_set =
     concat (map (\<lambda>p1. concat (map (\<lambda>p2. concat (map (\<lambda>p3.
       map (\<lambda>p4. Code p1 p2 p3 p4) CODE_PEG_COLORS)
       CODE_PEG_COLORS)) CODE_PEG_COLORS)) CODE_PEG_COLORS)"

subsection \<open>class PegScore\<close>

datatype PegScore = PegScore (num_red: int) (num_white: int)

definition PegScore_init :: "int \<Rightarrow> int \<Rightarrow> error + PegScore" where
  "PegScore_init n_red n_white =
     (if n_red + n_white > 4 \<or> n_red + n_white < 0 \<or> n_red > 4 \<or> n_red < 0
         \<or> n_white > 4 \<or> n_white < 0
      then Inl (Exception ''Invalid peg score'')
      else Inr (PegScore n_red n_white))"

subsection \<open>collections.Counter\<close>

text \<open>
  A counter is a list of (key, count) pairs in order of first occurrence. A missing key
  reads as 0. \<^verbatim>\<open>most_common(1)\<close> is empty on an empty counter and otherwise holds the
  first pair of greatest count.
\<close>

type_synonym 'a counter = "('a \<times> nat) list"

fun counter_incr :: "'a \<Rightarrow> 'a counter \<Rightarrow> 'a counter" where
  "counter_incr x [] = [(x, 1)]"
| "counter_incr x ((k, n) # kvs) =
     (if k = x then (k, Suc n) # kvs else (k, n) # counter_incr x kvs)"

definition Counter :: "'a list \<Rightarrow> 'a counter" where
  "Counter xs = foldl (\<lambda>c x. counter_incr x c) [] xs"

definition counter_get :: "'a counter \<Rightarrow> 'a \<Rightarrow> nat" where
  "counter_get c k = (case map_of c k of None \<Rightarrow> 0 | Some n \<Rightarrow> n)"

fun most_common1 :: "'a counter \<Rightarrow> ('a \<times> nat) list" where
  "most_common1 [] = []"
| "most_common1 (kv # kvs) =
     [foldl (\<lambda>best kv'. if snd best < snd kv' then kv' else best) kv kvs]"

subsection \<open>get_peg_score\<close>

definition get_peg_score :: "Code \<Rightarrow> Code \<Rightarrow> error + PegScore" where
  "get_peg_score guess soln =
     (let red_ct = of_bool (peg1 guess = peg1 soln) + of_bool (peg2 guess = peg2 soln)
                 + of_bool (peg3 guess = peg3 soln) + of_bool (peg4 guess = peg4 soln);
          colors = remdups [peg1 guess, peg2 guess, peg3 guess, peg4 guess];
          white_ct = foldl (\<lambda>white_ct c.
              let guess_occ = counter_get (Counter [peg1 guess, peg2 guess, peg3 guess, peg4 guess]) c;
                  soln_occ = counter_get (Counter [peg1 soln, peg2 soln, peg3 soln, peg4 soln]) c
              in white_ct + int (min guess_occ soln_occ)) 0 colors;
          white_ct = white_ct - red_ct
      in PegScore_init red_ct white_ct)"

subsection \<open>get_min_eliminated\<close>

text \<open>The loop that collects the score of \<open>code\<close> against every candidate.\<close>

fun collect_peg_scores :: "Code \<Rightarrow> Code list \<Rightarrow> error + PegScore list" where
  "collect_peg_scores code [] = Inr []"
| "collect_peg_scores code (soln # rest) =
     (case get_peg_score code soln of
        Inl e \<Rightarrow> Inl e
      | Inr result \<Rightarrow>
          (case collect_peg_scores code rest of
             Inl e \<Rightarrow> Inl e
           | Inr peg_scores \<Rightarrow> Inr (result # peg_scores)))"

definition get_min_eliminated :: "Code \<Rightarrow> Code list \<Rightarrow> error + int" where
  "get_min_eliminated code solution_candidates =
     (case collect_peg_scores code solution_candidates of
        Inl e \<Rightarrow> Inl e
      | Inr peg_scores \<Rightarrow>
          (case most_common1 (Counter peg_scores) of
             [] \<Rightarrow> Inl IndexError
           | (k, max_hit_ct) # others \<Rightarrow>
               Inr (int (length solution_candidates) - int max_hit_ct)))"

subsection \<open>get_next_guess\<close>

text \<open>
  The store of set objects. \<^verbatim>\<open>get_next_guess\<close> receives two references; its
  \<^verbatim>\<open>unguessed.pop()\<close> updates the object behind the second one, and the function hands
  back the store together with its result or exception.
\<close>

type_synonym ref = nat
type_synonym store = "ref \<Rightarrow> Code list"

text \<open>The \<^verbatim>\<open>for u in unguessed\<close> loop, with the loop variables as arguments.\<close>

fun guess_loop :: "Code list \<Rightarrow> Code list \<Rightarrow> Code \<Rightarrow> int \<Rightarrow> error + Code \<times> int" where
  "guess_loop solution_candidates [] best_code max_min_eliminated =
     Inr (best_code, max_min_eliminated)"
| "guess_loop solution_candidates (u # us) best_code max_min_eliminated =
     (case get_min_eliminated u solution_candidates of
        Inl e \<Rightarrow> Inl e
      | Inr min_eliminated \<Rightarrow>
          if min_eliminated > max_min_eliminated
          then guess_loop solution_candidates us u min_eliminated
          else if min_eliminated = max_min_eliminated
          then (if code_in best_code solution_candidates \<and> \<not> code_in u solution_candidates
                then guess_loop solution_candidates us best_code max_min_eliminated
                else if \<not> code_in best_code solution_candidates \<and> code_in u solution_candidates
                then guess_loop solution_candidates us u max_min_eliminated
                else if to_number u < to_number best_code
                then guess_loop solution_candidates us u max_min_eliminated
                else guess_loop solution_candidates us best_code max_min_eliminated)
          else guess_loop solution_candidates us best_code max_min_eliminated)"

definition get_next_guess :: "store \<Rightarrow> ref \<Rightarrow> ref \<Rightarrow> (error + Code \<times> int) \<times> store" where
  "get_next_guess h solution_candidates unguessed =
     (case h unguessed of
        [] \<Rightarrow> (Inl (Exception ''Ran out of unguessed codes''), h)
      | best_code # rest \<Rightarrow>
          (let h' = h(unguessed := rest) in
           case get_min_eliminated best_code (h' solution_candidates) of
             Inl e \<Rightarrow> (Inl e, h')
           | Inr max_min_eliminated \<Rightarrow>
               (guess_loop (h' solution_candidates) (h' unguessed) best_code max_min_eliminated,
                h')))"

subsection \<open>The specification's worst case\<close>

text \<open>
  The selector as the specification words it: the candidates are grouped by the score
  that \<open>u\<close> gets against them, and the worst case of \<open>u\<close> is the number of candidates
  minus the size of the largest group.
\<close>

definition score_group :: "Code \<Rightarrow> Code set \<Rightarrow> error + PegScore \<Rightarrow> Code set" where
  "score_group u candidates sc = {c \<in> candidates. get_peg_score u c = sc}"

definition worst_case :: "Code \<Rightarrow> Code set \<Rightarrow> int" where
  "worst_case u candidates =
     int (card candidates)
     - int (Max ((\<lambda>sc. card (score_group u candidates sc)) ` (get_peg_score u ` candidates)))"

subsection \<open>The game drivers\<close>

text \<open>
  The local variables of a driver. \<open>solution_candidates\<close> and \<open>unguessed\<close> hold
  references into \<open>objs\<close>; \<open>fresh\<close> is the next reference that no object has yet.
\<close>

record session =
  objs :: store
  fresh :: ref
  solution_candidates :: ref
  unguessed :: ref
  recommended_guess :: Code
  guess_num :: int

text \<open>
  The first statements of each driver: one full code set, bound to both variables
  (\<^verbatim>\<open>unguessed = solution_candidates\<close>), and the opening guess 1122.
\<close>

definition start_session :: "int \<Rightarrow> session" where
  "start_session n =
     \<lparr> objs = (\<lambda>r. [])(0 := get_full_code_set), fresh = 1,
       solution_candidates = 0, unguessed = 0,
       recommended_guess = Code 1 1 2 2, guess_num = n \<rparr>"

text \<open>\<^verbatim>\<open>s.remove(c)\<close>: the element equal to \<open>c\<close> leaves the set; KeyError if there is none.\<close>

definition set_remove :: "Code \<Rightarrow> Code list \<Rightarrow> error + Code list" where
  "set_remove c s =
     (if code_in c s then Inr (filter (\<lambda>x. \<not> Code_eq x c) s) else Inl KeyError)"

text \<open>\<^verbatim>\<open>[s for s in solution_candidates if get_peg_score(g, s) == peg_score]\<close>\<close>

fun keep_matching :: "Code \<Rightarrow> PegScore \<Rightarrow> Code list \<Rightarrow> error + Code list" where
  "keep_matching g peg_score [] = Inr []"
| "keep_matching g peg_score (s # rest) =
     (case get_peg_score g s of
        Inl e \<Rightarrow> Inl e
      | Inr result \<Rightarrow>
          (case keep_matching g peg_score rest of
             Inl e \<Rightarrow> Inl e
           | Inr kept \<Rightarrow> Inr (if result = peg_score then s # kept else kept)))"

text \<open>\<^verbatim>\<open>unguessed.remove(guess)\<close>\<close>

definition remove_guess :: "Code \<Rightarrow> session \<Rightarrow> error + session" where
  "remove_guess guess s =
     (case set_remove guess (objs s (unguessed s)) of
        Inl e \<Rightarrow> Inl e
      | Inr rest \<Rightarrow> Inr (s\<lparr>objs := (objs s)(unguessed s := rest)\<rparr>))"

text \<open>
  \<^verbatim>\<open>solution_candidates = set([s for s in solution_candidates if
  get_peg_score(recommended_guess, s) == peg_score])\<close>: a new set object, and the variable
  is bound to it.
\<close>

definition filter_candidates :: "PegScore \<Rightarrow> session \<Rightarrow> error + session" where
  "filter_candidates peg_score s =
     (case keep_matching (recommended_guess s) peg_score (objs s (solution_candidates s)) of
        Inl e \<Rightarrow> Inl e
      | Inr kept \<Rightarrow>
          Inr (s\<lparr>objs := (objs s)(fresh s := kept), solution_candidates := fresh s,
                  fresh := Suc (fresh s)\<rparr>))"

text \<open>
  \<^verbatim>\<open>recommended_guess = get_next_guess(solution_candidates, unguessed)[0]\<close> and
  \<^verbatim>\<open>guess_num += 1\<close>
\<close>

definition recommend_next :: "session \<Rightarrow> error + session" where
  "recommend_next s =
     (case get_next_guess (objs s) (solution_candidates s) (unguessed s) of
        (Inl e, h) \<Rightarrow> Inl e
      | (Inr (code, n), h) \<Rightarrow>
          Inr (s\<lparr>objs := h, recommended_guess := code, guess_num := guess_num s + 1\<rparr>))"

text \<open>The two sets that the variables of a session point to.\<close>

definition candidates_of :: "session \<Rightarrow> Code list" where
  "candidates_of s = objs s (solution_candidates s)"

definition unguessed_of :: "session \<Rightarrow> Code list" where
  "unguessed_of s = objs s (unguessed s)"

text \<open>
  One pass through the loop of \<^verbatim>\<open>run_game_human_human\<close>; the guess and the peg score
  are what the players typed. \<open>human_human_filtering\<close> is the pass up to and including the
  filtering of the candidates, \<open>human_human_round\<close> the whole pass.
\<close>

definition human_human_filtering :: "Code \<Rightarrow> PegScore \<Rightarrow> session \<Rightarrow> error + session" where
  "human_human_filtering guess peg_score s =
     (case remove_guess guess s of
        Inl e \<Rightarrow> Inl e
      | Inr s1 \<Rightarrow> filter_candidates peg_score s1)"

definition human_human_round :: "Code \<Rightarrow> PegScore \<Rightarrow> session \<Rightarrow> error + session" where
  "human_human_round guess peg_score s =
     (case human_human_filtering guess peg_score s of
        Inl e \<Rightarrow> Inl e
      | Inr s2 \<Rightarrow> recommend_next s2)"

text \<open>
  One pass through the loop of \<^verbatim>\<open>run_game_cpu_human\<close>: the peg score is computed from
  the guess that was typed and the hidden solution. The round hands back the score too,
  since the loop tests it.
\<close>

definition cpu_human_round :: "Code \<Rightarrow> Code \<Rightarrow> session \<Rightarrow> error + PegScore \<times> session" where
  "cpu_human_round soln guess s =
     (case remove_guess guess s of
        Inl e \<Rightarrow> Inl e
      | Inr s1 \<Rightarrow>
          (case get_peg_score guess soln of
             Inl e \<Rightarrow> Inl e
           | Inr peg_score \<Rightarrow>
               (case filter_candidates peg_score s1 of
                  Inl e \<Rightarrow> Inl e
                | Inr s2 \<Rightarrow>
                    (case recommend_next s2 of
                       Inl e \<Rightarrow> Inl e
                     | Inr s3 \<Rightarrow> Inr (peg_score, s3)))))"

text \<open>
  \<^verbatim>\<open>while peg_score != PegScore(num_red=4, num_white=0)\<close> of
  \<^verbatim>\<open>run_game_human_human\<close>, over the list of what the players will type. The result is
  the number of guesses, or \<open>None\<close> when the loop is left waiting for input.
\<close>

fun human_human_loop ::
  "(Code \<times> PegScore) list \<Rightarrow> PegScore \<Rightarrow> session \<Rightarrow> error + int option" where
  "human_human_loop [] peg_score s =
     (if peg_score \<noteq> PegScore 4 0 then Inr None else Inr (Some (guess_num s)))"
| "human_human_loop ((guess, typed_score) # later) peg_score s =
     (if peg_score \<noteq> PegScore 4 0
      then (case human_human_round guess typed_score s of
              Inl e \<Rightarrow> Inl e
            | Inr s' \<Rightarrow> human_human_loop later typed_score s')
      else Inr (Some (guess_num s)))"

definition run_game_human_human :: "(Code \<times> PegScore) list \<Rightarrow> error + int option" where
  "run_game_human_human typed = human_human_loop typed (PegScore 0 0) (start_session 0)"

text \<open>
  One pass through the loop of \<^verbatim>\<open>run_game_cpu_cpu\<close>; the solution is the random code
  drawn at the start. \<open>Inr (Inl n)\<close> is \<^verbatim>\<open>return guess_num\<close>, \<open>Inr (Inr s')\<close> the session
  at the end of the pass.
\<close>

definition cpu_cpu_round :: "Code \<Rightarrow> session \<Rightarrow> error + (int + session)" where
  "cpu_cpu_round soln s =
     (case remove_guess (recommended_guess s) s of
        Inl e \<Rightarrow> Inl e
      | Inr s1 \<Rightarrow>
          (case get_peg_score (recommended_guess s1) soln of
             Inl e \<Rightarrow> Inl e
           | Inr peg_score \<Rightarrow>
               if Code_eq (recommended_guess s1) soln then Inr (Inl (guess_num s1))
               else (case filter_candidates peg_score s1 of
                       Inl e \<Rightarrow> Inl e
                     | Inr s2 \<Rightarrow>
                         (case recommend_next s2 of
                            Inl e \<Rightarrow> Inl e
                          | Inr s3 \<Rightarrow> Inr (Inr s3)))))"

text \<open>\<^verbatim>\<open>for i in range(1296)\<close> of \<^verbatim>\<open>run_game_cpu_cpu\<close>, by the number of passes left.\<close>

fun cpu_cpu_loop :: "nat \<Rightarrow> Code \<Rightarrow> session \<Rightarrow> error + int" where
  "cpu_cpu_loop 0 soln s = Inl (Exception ''Timeout'')"
| "cpu_cpu_loop (Suc i) soln s =
     (case cpu_cpu_round soln s of
        Inl e \<Rightarrow> Inl e
      | Inr (Inl n) \<Rightarrow> Inr n
      | Inr (Inr s') \<Rightarrow> cpu_cpu_loop i soln s')"

definition run_game_cpu_cpu :: "Code \<Rightarrow> error + int" where
  "run_game_cpu_cpu soln = cpu_cpu_loop 1296 soln (start_session 1)"

subsection \<open>Auxiliary notions for the proofs\<close>

text \<open>
  The pegs of a code as a list, the number of positions at which two peg lists agree, and
  the number of pegs two lists have in common when position is ignored.
\<close>

definition pegs :: "Code \<Rightarrow> int list" where
  "pegs c = [peg1 c, peg2 c, peg3 c, peg4 c]"

definition matches :: "int list \<Rightarrow> int list \<Rightarrow> nat" where
  "matches xs ys = length (filter (\<lambda>(x, y). x = y) (zip xs ys))"

definition common :: "int list \<Rightarrow> int list \<Rightarrow> nat" where
  "common xs ys = (\<Sum>c \<in> set xs \<union> set ys. min (count_list xs c) (count_list ys c))"


text \<open>
  The score as a plain value (the scorer never raises), the greatest number of
  occurrences of one element in a list, and what \<^verbatim>\<open>get_min_eliminated\<close> computes when
  there is a candidate.
\<close>

definition score_of :: "Code \<Rightarrow> Code \<Rightarrow> PegScore" where
  "score_of a b =
     PegScore (int (matches (pegs a) (pegs b)))
              (int (common (pegs a) (pegs b)) - int (matches (pegs a) (pegs b)))"

definition max_hits :: "'a list \<Rightarrow> nat" where
  "max_hits ps = Max (count_list ps ` set ps)"

definition elim :: "Code \<Rightarrow> Code list \<Rightarrow> int" where
  "elim u cs = int (length cs) - int (max_hits (map (score_of u) cs))"

text \<open>
  The order in which the loop of \<^verbatim>\<open>get_next_guess\<close> ranks two codes: \<open>geq cs r v\<close> says
  that the loop keeps \<open>r\<close> when it meets \<open>v\<close>.
\<close>

definition geq :: "Code list \<Rightarrow> Code \<Rightarrow> Code \<Rightarrow> bool" where
  "geq cs r v =
     (elim v cs < elim r cs \<or>
      (elim v cs = elim r cs \<and>
        ((code_in r cs \<and> \<not> code_in v cs) \<or>
         (code_in r cs = code_in v cs \<and> to_number r \<le> to_number v))))"

text \<open>Two small stores, holding the same two sets in different iteration orders.\<close>

definition example_store :: store where
  "example_store =
     (\<lambda>r. [])(0 := [Code 1 1 1 1, Code 1 1 1 2, Code 3 3 3 3],
               1 := [Code 1 1 1 2, Code 4 4 4 4, Code 1 1 1 1])"

definition example_store_reordered :: store where
  "example_store_reordered =
     (\<lambda>r. [])(2 := [Code 4 4 4 4, Code 1 1 1 1, Code 1 1 1 2],
               5 := [Code 3 3 3 3, Code 1 1 1 1, Code 1 1 1 2])"


text \<open>
  A session in the middle of a game: three candidates left, three codes unguessed, and
  6666 as the guess that was recommended.
\<close>

definition example_session :: session where
  "example_session =
     \<lparr> objs = example_store, fresh = 2, solution_candidates = 0, unguessed = 1,
       recommended_guess = Code 6 6 6 6, guess_num = 3 \<rparr>"

section \<open>Properties\<close>

subsection \<open>The counter\<close>

lemma counter_get_incr:
  "counter_get (counter_incr x c) k = (if k = x then Suc (counter_get c k) else counter_get c k)"
  by (induction x c rule: counter_incr.induct) (auto simp: counter_get_def)

lemma counter_keys_incr: "fst ` set (counter_incr x c) = insert x (fst ` set c)"
  by (induction x c rule: counter_incr.induct) auto

lemma counter_distinct_incr:
  "distinct (map fst c) \<Longrightarrow> distinct (map fst (counter_incr x c))"
proof (induction x c rule: counter_incr.induct)
  case (1 x)
  then show ?case by simp
next
  case (2 x k n kvs)
  then show ?case
    using counter_keys_incr [of x kvs] by (auto simp: image_iff)
qed

lemma counter_fold_get:
  "counter_get (foldl (\<lambda>c x. counter_incr x c) c xs) k = counter_get c k + count_list xs k"
  by (induction xs arbitrary: c) (auto simp: counter_get_incr)

lemma counter_fold_keys:
  "fst ` set (foldl (\<lambda>c x. counter_incr x c) c xs) = fst ` set c \<union> set xs"
  by (induction xs arbitrary: c) (auto simp: counter_keys_incr)

lemma counter_fold_distinct:
  "distinct (map fst c) \<Longrightarrow> distinct (map fst (foldl (\<lambda>c x. counter_incr x c) c xs))"
  by (induction xs arbitrary: c) (auto simp: counter_distinct_incr)

lemma Counter_get [simp]: "counter_get (Counter xs) k = count_list xs k"
  by (simp add: Counter_def counter_fold_get) (simp add: counter_get_def)

lemma Counter_keys: "fst ` set (Counter xs) = set xs"
  by (simp add: Counter_def counter_fold_keys)

lemma Counter_distinct: "distinct (map fst (Counter xs))"
  by (simp add: Counter_def counter_fold_distinct)

lemma Counter_set: "set (Counter xs) = (\<lambda>k. (k, count_list xs k)) ` set xs"
proof (rule set_eqI)
  fix kv :: "'a \<times> nat"
  obtain k n where kv: "kv = (k, n)" by (cases kv)
  have "(k, n) \<in> set (Counter xs) \<longleftrightarrow> map_of (Counter xs) k = Some n"
    using Counter_distinct [of xs] by simp
  also have "\<dots> \<longleftrightarrow> k \<in> set xs \<and> n = count_list xs k"
  proof (cases "k \<in> set xs")
    case True
    then have "k \<in> fst ` set (Counter xs)" by (simp add: Counter_keys)
    then obtain m where m: "map_of (Counter xs) k = Some m"
      by (metis domD dom_map_of_conv_image_fst)
    then have "m = count_list xs k"
      using Counter_get [of xs k] by (simp add: counter_get_def)
    with m True show ?thesis by auto
  next
    case False
    then have "k \<notin> fst ` set (Counter xs)" by (simp add: Counter_keys)
    then have "map_of (Counter xs) k = None" by (simp add: map_of_eq_None_iff)
    with False show ?thesis by simp
  qed
  finally show "kv \<in> set (Counter xs) \<longleftrightarrow> kv \<in> (\<lambda>k. (k, count_list xs k)) ` set xs"
    by (auto simp: kv)
qed

lemma fold_best_mem:
  "foldl (\<lambda>best kv'. if snd best < snd kv' then kv' else best) (kv :: 'a \<times> nat) kvs
     \<in> insert kv (set kvs)"
  by (induction kvs arbitrary: kv) (auto split: if_splits)

lemma fold_best_ge_start:
  "snd (kv :: 'a \<times> nat) \<le> snd (foldl (\<lambda>best kv'. if snd best < snd kv' then kv' else best) kv kvs)"
proof (induction kvs arbitrary: kv)
  case Nil
  then show ?case by simp
next
  case (Cons a kvs)
  show ?case
    using Cons.IH [of a] Cons.IH [of kv] by (auto simp: not_less)
qed

lemma fold_best_ge:
  "(x :: 'a \<times> nat) \<in> set kvs \<Longrightarrow>
   snd x \<le> snd (foldl (\<lambda>best kv'. if snd best < snd kv' then kv' else best) kv kvs)"
proof (induction kvs arbitrary: kv)
  case Nil
  then show ?case by simp
next
  case (Cons a kvs)
  show ?case
  proof (cases "x = a")
    case True
    then show ?thesis
      using fold_best_ge_start [of a kvs] fold_best_ge_start [of kv kvs]
      by (auto simp: not_less intro: order_trans)
  next
    case False
    with Cons.prems have "x \<in> set kvs" by simp
    then show ?thesis using Cons.IH by simp
  qed
qed

lemma most_common1_Nil [simp]: "most_common1 c = [] \<longleftrightarrow> c = []"
  by (cases c) auto

lemma most_common1_max:
  assumes "most_common1 c = (k, n) # rest"
  shows "(k, n) \<in> set c \<and> (\<forall>kv \<in> set c. snd kv \<le> n)"
proof (cases c)
  case Nil
  with assms show ?thesis by simp
next
  case (Cons kv kvs)
  with assms have best: "foldl (\<lambda>best kv'. if snd best < snd kv' then kv' else best) kv kvs = (k, n)"
    by simp
  have "(k, n) \<in> set c"
    using fold_best_mem [of kv kvs] by (simp add: best Cons)
  moreover have "\<forall>x \<in> set c. snd x \<le> n"
    using fold_best_ge [of _ kvs kv] fold_best_ge_start [of kv kvs]
    by (auto simp: best Cons)
  ultimately show ?thesis by simp
qed

subsection \<open>The scorer\<close>

lemma foldl_add_int:
  "foldl (\<lambda>w c. w + int (f c)) w0 cs = w0 + int (sum_list (map f cs))"
  by (induction cs arbitrary: w0) auto

lemma sum_remdups_common:
  "sum_list (map (\<lambda>c. min (count_list xs c) (count_list ys c)) (remdups xs)) = common xs ys"
proof -
  have "sum_list (map (\<lambda>c. min (count_list xs c) (count_list ys c)) (remdups xs))
        = (\<Sum>c \<in> set xs. min (count_list xs c) (count_list ys c))"
    by (simp add: sum_list_distinct_conv_sum_set)
  also have "\<dots> = common xs ys"
    unfolding common_def
    by (rule sum.mono_neutral_left) (auto simp: count_list_0_iff)
  finally show ?thesis .
qed

lemma common_sym: "common xs ys = common ys xs"
  by (simp add: common_def Un_commute min.commute)

lemma matches_sym: "matches xs ys = matches ys xs"
proof -
  have "filter (\<lambda>(x, y). x = y) (zip xs ys) = map (\<lambda>(y, x). (x, y)) (filter (\<lambda>(x, y). x = y) (zip ys xs))"
    by (induction xs ys rule: list_induct2') auto
  then show ?thesis by (simp add: matches_def)
qed

lemma common_le_length: "common xs ys \<le> length xs"
proof -
  have "common xs ys \<le> (\<Sum>c \<in> set xs \<union> set ys. count_list xs c)"
    unfolding common_def by (rule sum_mono) simp
  also have "\<dots> = length xs"
    by (rule sum_count_set) auto
  finally show ?thesis .
qed

lemma matches_le_sum:
  "finite S \<Longrightarrow> set xs \<subseteq> S \<Longrightarrow>
   matches xs ys \<le> (\<Sum>c \<in> S. min (count_list xs c) (count_list ys c))"
proof (induction xs ys rule: list_induct2')
  case (4 x xs y ys)
  let ?g = "\<lambda>c. min (count_list xs c) (count_list ys c)"
  let ?f = "\<lambda>c. min (count_list (x # xs) c) (count_list (y # ys) c)"
  from 4 have IH: "matches xs ys \<le> sum ?g S" and xS: "x \<in> S" by auto
  have mono: "\<And>c. ?g c \<le> ?f c" by auto
  show ?case
  proof (cases "x = y")
    case False
    have "matches (x # xs) (y # ys) = matches xs ys"
      using False by (simp add: matches_def)
    also have "\<dots> \<le> sum ?g S" by (rule IH)
    also have "\<dots> \<le> sum ?f S" by (rule sum_mono) (rule mono)
    finally show ?thesis .
  next
    case True
    have "matches (x # xs) (y # ys) = Suc (matches xs ys)"
      using True by (simp add: matches_def)
    also have "\<dots> \<le> Suc (sum ?g S)" using IH by simp
    also have "\<dots> = Suc (?g x) + sum ?g (S - {x})"
      using \<open>finite S\<close> xS by (simp add: sum.remove)
    also have "\<dots> \<le> ?f x + sum ?f (S - {x})"
    proof (rule add_mono)
      show "Suc (?g x) \<le> ?f x" using True by simp
      show "sum ?g (S - {x}) \<le> sum ?f (S - {x})" by (rule sum_mono) (rule mono)
    qed
    also have "\<dots> = sum ?f S"
      using \<open>finite S\<close> xS by (simp add: sum.remove)
    finally show ?thesis .
  qed
qed (simp_all add: matches_def)

lemma matches_le_common: "matches xs ys \<le> common xs ys"
  unfolding common_def by (rule matches_le_sum) auto

lemma red_ct_matches:
  "(of_bool (peg1 a = peg1 b) + of_bool (peg2 a = peg2 b)
    + of_bool (peg3 a = peg3 b) + of_bool (peg4 a = peg4 b) :: int)
   = int (matches (pegs a) (pegs b))"
  by (simp add: matches_def pegs_def)

lemma get_peg_score_eq:
  "get_peg_score a b =
     Inr (PegScore (int (matches (pegs a) (pegs b)))
                   (int (common (pegs a) (pegs b)) - int (matches (pegs a) (pegs b))))"
proof -
  let ?r = "matches (pegs a) (pegs b)" and ?c = "common (pegs a) (pegs b)"
  have r: "?r \<le> ?c" by (rule matches_le_common)
  have c: "?c \<le> 4" using common_le_length [of "pegs a" "pegs b"] by (simp add: pegs_def)
  have "get_peg_score a b = PegScore_init (int ?r) (int ?c - int ?r)"
    unfolding get_peg_score_def Let_def red_ct_matches
    by (simp only: Counter_get foldl_add_int pegs_def [symmetric] sum_remdups_common) simp
  also have "\<dots> = Inr (PegScore (int ?r) (int ?c - int ?r))"
    using r c by (simp add: PegScore_init_def)
  finally show ?thesis .
qed

lemma matches_all: "matches (pegs a) (pegs b) = 4 \<longleftrightarrow> a = b"
  by (cases a; cases b) (simp add: matches_def pegs_def)

lemma common_self: "common xs xs = length xs"
proof -
  have "common xs xs = (\<Sum>c \<in> set xs. count_list xs c)" by (simp add: common_def)
  also have "\<dots> = length xs" by (rule sum_count_set) auto
  finally show ?thesis .
qed

lemma color_bounds: "x \<in> set CODE_PEG_COLORS \<Longrightarrow> 1 \<le> x \<and> x \<le> 6"
  by (auto simp: CODE_PEG_COLORS_def)

lemma valid_code_bounds:
  "valid_code c \<Longrightarrow>
   1 \<le> peg1 c \<and> peg1 c \<le> 6 \<and> 1 \<le> peg2 c \<and> peg2 c \<le> 6 \<and>
   1 \<le> peg3 c \<and> peg3 c \<le> 6 \<and> 1 \<le> peg4 c \<and> peg4 c \<le> 6"
  unfolding valid_code_def
  using color_bounds [of "peg1 c"] color_bounds [of "peg2 c"]
        color_bounds [of "peg3 c"] color_bounds [of "peg4 c"]
  by blast

lemma to_number_inj:
  assumes "valid_code a" "valid_code b" "to_number a = to_number b"
  shows "a = b"
proof -
  note ba = valid_code_bounds [OF assms(1)] and bb = valid_code_bounds [OF assms(2)]
  have eq: "peg1 a * 1000 + peg2 a * 100 + peg3 a * 10 + peg4 a
            = peg1 b * 1000 + peg2 b * 100 + peg3 b * 10 + peg4 b"
    using assms(3) by (simp add: to_number_def)
  have p1: "peg1 a = peg1 b" using ba bb eq by linarith
  have p2: "peg2 a = peg2 b" using ba bb eq p1 by linarith
  have p3: "peg3 a = peg3 b" using ba bb eq p1 p2 by linarith
  have p4: "peg4 a = peg4 b" using eq p1 p2 p3 by linarith
  show ?thesis using p1 p2 p3 p4 by (simp add: Code.expand)
qed


subsection \<open>Claims about the scorer\<close>

text \<open>
  Claim C5. The scorer is symmetric: for all codes \<open>a\<close> and \<open>b\<close> (valid or not), the score of
  \<open>a\<close> against \<open>b\<close> is the score of \<open>b\<close> against \<open>a\<close>, red count and white count alike.
\<close>

theorem score_symmetric: "get_peg_score a b = get_peg_score b a"
  by (simp add: get_peg_score_eq common_sym [of "pegs a"] matches_sym [of "pegs a"])

text \<open>
  Claim C6. The scorer never fails: for all codes it returns a peg score, and the red and
  white counts it computes are not negative and sum to at most 4, so the constructor of
  \<^verbatim>\<open>PegScore\<close> never raises from the scorer.
\<close>

theorem score_total:
  "\<exists>r w. get_peg_score g s = Inr (PegScore r w) \<and> 0 \<le> r \<and> 0 \<le> w \<and> r + w \<le> 4"
proof -
  have "matches (pegs g) (pegs s) \<le> common (pegs g) (pegs s)" by (rule matches_le_common)
  moreover have "common (pegs g) (pegs s) \<le> 4"
    using common_le_length [of "pegs g" "pegs s"] by (simp add: pegs_def)
  ultimately show ?thesis by (simp add: get_peg_score_eq)
qed

text \<open>
  Claim C10. For valid codes \<open>a\<close> and \<open>b\<close> the score of \<open>a\<close> against \<open>b\<close> is four red and no
  white exactly when \<^verbatim>\<open>a == b\<close>, and \<^verbatim>\<open>a == b\<close> holds exactly when the two codes have the
  same pegs. So the test \<^verbatim>\<open>recommended_guess == soln\<close> of the computer-against-computer
  driver and the test of the peg score against \<^verbatim>\<open>PegScore(4, 0)\<close> agree.
\<close>

theorem score_full_iff_equal:
  assumes "valid_code a" "valid_code b"
  shows "(get_peg_score a b = Inr (PegScore 4 0)) = Code_eq a b \<and> Code_eq a b = (a = b)"
proof -
  have eq: "Code_eq a b = (a = b)"
    using assms to_number_inj [of a b] by (auto simp: Code_eq_def)
  have "(get_peg_score a b = Inr (PegScore 4 0)) = (a = b)"
  proof
    assume "get_peg_score a b = Inr (PegScore 4 0)"
    then have "int (matches (pegs a) (pegs b)) = 4" by (simp add: get_peg_score_eq)
    then have "matches (pegs a) (pegs b) = 4" by simp
    then show "a = b" by (simp add: matches_all)
  next
    assume "a = b"
    moreover have "matches (pegs b) (pegs b) = 4" by (simp add: matches_all)
    moreover have "common (pegs b) (pegs b) = 4" by (simp add: common_self) (simp add: pegs_def)
    ultimately show "get_peg_score a b = Inr (PegScore 4 0)" by (simp add: get_peg_score_eq)
  qed
  with eq show ?thesis by simp
qed

theorem score_full_iff_equal_witness:
  "valid_code (Code 1 1 2 2) \<and> valid_code (Code 1 2 3 4) \<and>
   ((get_peg_score (Code 1 1 2 2) (Code 1 2 3 4) = Inr (PegScore 4 0))
      = Code_eq (Code 1 1 2 2) (Code 1 2 3 4)) \<and>
   Code_eq (Code 1 1 2 2) (Code 1 2 3 4) = (Code 1 1 2 2 = Code 1 2 3 4)"
proof -
  have a: "valid_code (Code 1 1 2 2)" by (simp add: valid_code_def CODE_PEG_COLORS_def)
  have b: "valid_code (Code 1 2 3 4)" by (simp add: valid_code_def CODE_PEG_COLORS_def)
  show ?thesis using a b score_full_iff_equal [OF a b] by simp
qed

subsection \<open>The selector\<close>

lemma get_peg_score_score_of: "get_peg_score a b = Inr (score_of a b)"
  by (simp add: get_peg_score_eq score_of_def)

lemma collect_peg_scores_map: "collect_peg_scores u cs = Inr (map (score_of u) cs)"
  by (induction cs) (simp_all add: get_peg_score_score_of)

lemma most_common1_Counter:
  assumes "ps \<noteq> []"
  shows "\<exists>k rest. most_common1 (Counter ps) = (k, max_hits ps) # rest"
proof -
  have "Counter ps \<noteq> []"
    using assms Counter_keys [of ps] by auto
  then obtain k n rest where mc: "most_common1 (Counter ps) = (k, n) # rest"
    by (cases "most_common1 (Counter ps)") auto
  from most_common1_max [OF mc]
  have mem: "(k, n) \<in> set (Counter ps)" and ub: "\<forall>kv \<in> set (Counter ps). snd kv \<le> n"
    by auto
  from mem have k: "k \<in> set ps" and n: "n = count_list ps k"
    by (auto simp: Counter_set)
  have "\<And>k'. k' \<in> set ps \<Longrightarrow> count_list ps k' \<le> n"
  proof -
    fix k' assume "k' \<in> set ps"
    then have "(k', count_list ps k') \<in> set (Counter ps)" by (simp add: Counter_set)
    with ub show "count_list ps k' \<le> n" by fastforce
  qed
  then have "Max (count_list ps ` set ps) = n"
    using k n by (intro Max_eqI) auto
  with mc show ?thesis by (simp add: max_hits_def)
qed

lemma get_min_eliminated_Nil: "get_min_eliminated u [] = Inl IndexError"
  by (simp add: get_min_eliminated_def Counter_def)

lemma get_min_eliminated_elim:
  assumes "cs \<noteq> []"
  shows "get_min_eliminated u cs = Inr (elim u cs)"
proof -
  from assms have "map (score_of u) cs \<noteq> []" by simp
  from most_common1_Counter [OF this] obtain k rest
    where "most_common1 (Counter (map (score_of u) cs)) = (k, max_hits (map (score_of u) cs)) # rest"
    by blast
  then show ?thesis
    by (simp add: get_min_eliminated_def collect_peg_scores_map elim_def)
qed

lemma count_list_map_card:
  "distinct cs \<Longrightarrow> count_list (map f cs) s = card {c \<in> set cs. f c = s}"
proof (induction cs)
  case Nil
  then show ?case by simp
next
  case (Cons a cs)
  have fin: "finite {c \<in> set cs. f c = s}" by simp
  have notin: "a \<notin> {c \<in> set cs. f c = s}" using Cons.prems by simp
  show ?case
  proof (cases "f a = s")
    case True
    then have "{c \<in> set (a # cs). f c = s} = insert a {c \<in> set cs. f c = s}" by auto
    then show ?thesis using Cons True fin notin by simp
  next
    case False
    then have "{c \<in> set (a # cs). f c = s} = {c \<in> set cs. f c = s}" by auto
    then show ?thesis using Cons False by simp
  qed
qed

lemma elim_worst_case:
  assumes "distinct cs"
  shows "elim u cs = worst_case u (set cs)"
proof -
  let ?ps = "map (score_of u) cs"
  have grp: "\<And>s. card (score_group u (set cs) (Inr s)) = count_list ?ps s"
    using assms by (simp add: score_group_def get_peg_score_score_of count_list_map_card)
  have "(\<lambda>sc. card (score_group u (set cs) sc)) ` (get_peg_score u ` set cs)
        = count_list ?ps ` set ?ps"
    by (simp add: image_image get_peg_score_score_of grp)
  moreover have "card (set cs) = length cs"
    using assms by (simp add: distinct_card)
  ultimately show ?thesis
    by (simp add: elim_def worst_case_def max_hits_def)
qed

lemma geq_refl: "geq cs r r"
  by (simp add: geq_def)

lemma geq_trans: "geq cs a b \<Longrightarrow> geq cs b c \<Longrightarrow> geq cs a c"
  unfolding geq_def by (elim disjE conjE) auto

lemma guess_loop_spec:
  assumes "cs \<noteq> []"
  shows "\<exists>r. guess_loop cs us b (elim b cs) = Inr (r, elim r cs) \<and>
             r \<in> insert b (set us) \<and> geq cs r b \<and> (\<forall>v \<in> set us. geq cs r v)"
proof (induction us arbitrary: b)
  case Nil
  show ?case by (simp add: geq_refl)
next
  case (Cons u us)
  note gme = get_min_eliminated_elim [OF assms]
  define b' where "b' =
    (if elim b cs < elim u cs then u
     else if elim u cs = elim b cs then
       (if code_in b cs \<and> \<not> code_in u cs then b
        else if \<not> code_in b cs \<and> code_in u cs then u
        else if to_number u < to_number b then u else b)
     else b)"
  have step: "guess_loop cs (u # us) b (elim b cs) = guess_loop cs us b' (elim b' cs)"
    by (simp add: gme b'_def)
  have b'b: "geq cs b' b" and b'u: "geq cs b' u" and b'mem: "b' = b \<or> b' = u"
    unfolding b'_def geq_def by (auto split: if_splits)
  from Cons.IH [of b'] obtain r where
    r: "guess_loop cs us b' (elim b' cs) = Inr (r, elim r cs)"
       "r \<in> insert b' (set us)" "geq cs r b'" "\<forall>v \<in> set us. geq cs r v"
    by blast
  have "geq cs r b" using r(3) b'b by (rule geq_trans)
  moreover have "geq cs r u" using r(3) b'u by (rule geq_trans)
  moreover have "r \<in> insert b (set (u # us))" using r(2) b'mem by auto
  ultimately show ?case using r(1,4) step by auto
qed

lemma get_next_guess_store: "snd (get_next_guess h sc ug) = h(ug := tl (h ug))"
  by (cases "h ug") (auto simp: get_next_guess_def Let_def split: sum.splits)

lemma get_next_guess_Nil:
  "h ug = [] \<Longrightarrow> fst (get_next_guess h sc ug) = Inl (Exception ''Ran out of unguessed codes'')"
  by (simp add: get_next_guess_def)

lemma get_next_guess_no_candidates:
  "sc \<noteq> ug \<Longrightarrow> h ug \<noteq> [] \<Longrightarrow> h sc = [] \<Longrightarrow> fst (get_next_guess h sc ug) = Inl IndexError"
  by (cases "h ug") (simp_all add: get_next_guess_def Let_def get_min_eliminated_Nil)

lemma get_next_guess_best:
  assumes "sc \<noteq> ug" "h sc \<noteq> []" "h ug \<noteq> []"
  shows "\<exists>r. fst (get_next_guess h sc ug) = Inr (r, elim r (h sc)) \<and>
             r \<in> set (h ug) \<and> (\<forall>v \<in> set (h ug). geq (h sc) r v)"
proof -
  from assms(3) obtain b rest where ug: "h ug = b # rest" by (cases "h ug") auto
  from guess_loop_spec [OF assms(2), of rest b] obtain r where
    r: "guess_loop (h sc) rest b (elim b (h sc)) = Inr (r, elim r (h sc))"
       "r \<in> insert b (set rest)" "geq (h sc) r b" "\<forall>v \<in> set rest. geq (h sc) r v"
    by blast
  have "fst (get_next_guess h sc ug) = guess_loop (h sc) rest b (elim b (h sc))"
    using assms(1) by (simp add: get_next_guess_def ug Let_def get_min_eliminated_elim [OF assms(2)])
  with r show ?thesis by (auto simp: ug)
qed

lemma code_in_iff:
  assumes "valid_code u" "\<forall>c \<in> set cs. valid_code c"
  shows "code_in u cs \<longleftrightarrow> u \<in> set cs"
proof
  assume "code_in u cs"
  then obtain x where x: "x \<in> set cs" "to_number x = to_number u"
    by (auto simp: code_in_def list_ex_iff Code_eq_def)
  then have "x = u" using assms to_number_inj [of x u] by auto
  with x show "u \<in> set cs" by simp
next
  assume "u \<in> set cs"
  then show "code_in u cs" by (auto simp: code_in_def list_ex_iff Code_eq_def)
qed

lemma code_in_set_cong: "set cs = set cs' \<Longrightarrow> code_in u cs = code_in u cs'"
  by (simp add: code_in_def list_ex_iff)

lemma geq_antisym:
  assumes "geq cs r v" "geq cs v r" "valid_code r" "valid_code v"
  shows "r = v"
proof -
  from assms(1,2) have "to_number r = to_number v"
    unfolding geq_def by (elim disjE conjE) auto
  with assms(3,4) show ?thesis by (rule to_number_inj)
qed

subsection \<open>Claims about the selector\<close>

text \<open>
  Claim C1. When \<^verbatim>\<open>get_next_guess\<close> is called on two set objects, a non-empty set of
  candidates and a non-empty set of unguessed codes, it returns a code \<open>u\<close> of the unguessed
  set together with \<open>worst_case u\<close>, the number of candidates minus the size of the largest
  group of candidates with the same score against \<open>u\<close>. No unguessed code has a greater
  worst case; among the unguessed codes with the same worst case, \<open>u\<close> is a candidate if
  any of them is, and among those that agree with \<open>u\<close> on being a candidate, \<open>u\<close> has the
  least numeric encoding. This holds for every iteration order of the two sets.
\<close>

theorem get_next_guess_minimax:
  assumes "sc \<noteq> ug" "h sc \<noteq> []" "h ug \<noteq> []" "distinct (h sc)"
    and "\<forall>c \<in> set (h sc) \<union> set (h ug). valid_code c"
  shows "\<exists>u. fst (get_next_guess h sc ug) = Inr (u, worst_case u (set (h sc))) \<and>
             u \<in> set (h ug) \<and>
             (\<forall>v \<in> set (h ug). worst_case v (set (h sc)) \<le> worst_case u (set (h sc))) \<and>
             (\<forall>v \<in> set (h ug). worst_case v (set (h sc)) = worst_case u (set (h sc)) \<longrightarrow>
                (v \<in> set (h sc) \<longrightarrow> u \<in> set (h sc)) \<and>
                ((v \<in> set (h sc)) = (u \<in> set (h sc)) \<longrightarrow> to_number u \<le> to_number v))"
proof -
  from get_next_guess_best [OF assms(1-3)] obtain r where
    res: "fst (get_next_guess h sc ug) = Inr (r, elim r (h sc))" and rmem: "r \<in> set (h ug)"
    and best: "\<forall>v \<in> set (h ug). geq (h sc) r v"
    by blast
  have wc: "\<And>v. elim v (h sc) = worst_case v (set (h sc))"
    using assms(4) by (rule elim_worst_case)
  have mem: "\<And>v. v \<in> set (h ug) \<Longrightarrow> code_in v (h sc) = (v \<in> set (h sc))"
  proof -
    fix v assume "v \<in> set (h ug)"
    then have "valid_code v" using assms(5) by blast
    moreover have "\<forall>c \<in> set (h sc). valid_code c" using assms(5) by blast
    ultimately show "code_in v (h sc) = (v \<in> set (h sc))" by (rule code_in_iff)
  qed
  have res': "fst (get_next_guess h sc ug) = Inr (r, worst_case r (set (h sc)))"
    using res by (simp only: wc)
  have ub: "\<forall>v \<in> set (h ug). worst_case v (set (h sc)) \<le> worst_case r (set (h sc))"
  proof
    fix v assume "v \<in> set (h ug)"
    with best have "geq (h sc) r v" by blast
    then have "elim v (h sc) \<le> elim r (h sc)" unfolding geq_def by linarith
    then show "worst_case v (set (h sc)) \<le> worst_case r (set (h sc))" by (simp only: wc)
  qed
  have tb: "\<forall>v \<in> set (h ug). worst_case v (set (h sc)) = worst_case r (set (h sc)) \<longrightarrow>
              (v \<in> set (h sc) \<longrightarrow> r \<in> set (h sc)) \<and>
              ((v \<in> set (h sc)) = (r \<in> set (h sc)) \<longrightarrow> to_number r \<le> to_number v)"
  proof (intro ballI impI)
    fix v assume v: "v \<in> set (h ug)"
      and tie: "worst_case v (set (h sc)) = worst_case r (set (h sc))"
    from best v have "geq (h sc) r v" by blast
    moreover have "\<not> elim v (h sc) < elim r (h sc)" using tie by (simp add: wc)
    ultimately have "(code_in r (h sc) \<and> \<not> code_in v (h sc)) \<or>
                     (code_in r (h sc) = code_in v (h sc) \<and> to_number r \<le> to_number v)"
      unfolding geq_def by blast
    then have "(r \<in> set (h sc) \<and> v \<notin> set (h sc)) \<or>
               ((r \<in> set (h sc)) = (v \<in> set (h sc)) \<and> to_number r \<le> to_number v)"
      by (simp only: mem [OF v] mem [OF rmem])
    then show "(v \<in> set (h sc) \<longrightarrow> r \<in> set (h sc)) \<and>
               ((v \<in> set (h sc)) = (r \<in> set (h sc)) \<longrightarrow> to_number r \<le> to_number v)"
      by blast
  qed
  from res' rmem ub tb show ?thesis by blast
qed

theorem get_next_guess_minimax_witness:
  "(0::nat) \<noteq> 1 \<and> example_store 0 \<noteq> [] \<and> example_store 1 \<noteq> [] \<and>
   distinct (example_store 0) \<and> list_all valid_code (example_store 0 @ example_store 1) \<and>
   fst (get_next_guess example_store 0 1) = Inr (Code 1 1 1 1, 2) \<and>
   worst_case (Code 1 1 1 1) (set (example_store 0)) = 2 \<and>
   worst_case (Code 1 1 1 2) (set (example_store 0)) \<le> 2 \<and>
   worst_case (Code 4 4 4 4) (set (example_store 0)) \<le> 2"
proof -
  have h1: "(0::nat) \<noteq> 1" by simp
  have h2: "example_store 0 \<noteq> []" by (simp add: example_store_def)
  have h3: "example_store 1 \<noteq> []" by (simp add: example_store_def)
  have h4: "distinct (example_store 0)" by (simp add: example_store_def)
  have va: "list_all valid_code (example_store 0 @ example_store 1)"
    by (simp add: example_store_def valid_code_def CODE_PEG_COLORS_def)
  then have h5: "\<forall>c \<in> set (example_store 0) \<union> set (example_store 1). valid_code c"
    by (simp add: list_all_iff)
  have ev: "fst (get_next_guess example_store 0 1) = Inr (Code 1 1 1 1, 2)"
    by code_simp
  from get_next_guess_minimax [OF h1 h2 h3 h4 h5] obtain u where
    u: "fst (get_next_guess example_store 0 1) = Inr (u, worst_case u (set (example_store 0)))"
    and ub: "\<forall>v \<in> set (example_store 1).
               worst_case v (set (example_store 0)) \<le> worst_case u (set (example_store 0))"
    by blast
  have pr: "Inr (Code 1 1 1 1, 2) =
            (Inr (u, worst_case u (set (example_store 0))) :: error + Code \<times> int)"
    by (rule trans [OF ev [symmetric] u])
  from pr have eq: "u = Code 1 1 1 1" by simp
  from pr have wc: "worst_case u (set (example_store 0)) = 2" by simp
  have m1: "Code 1 1 1 2 \<in> set (example_store 1)" and m2: "Code 4 4 4 4 \<in> set (example_store 1)"
    by (simp_all add: example_store_def)
  have b1: "worst_case (Code 1 1 1 2) (set (example_store 0)) \<le> 2"
    using ub m1 wc by fastforce
  have b2: "worst_case (Code 4 4 4 4) (set (example_store 0)) \<le> 2"
    using ub m2 wc by fastforce
  from h1 h2 h3 h4 va ev wc [unfolded eq] b1 b2 show ?thesis by (intro conjI)
qed

text \<open>
  Claim C7. \<^verbatim>\<open>get_next_guess\<close> is deterministic in the values of its two sets: two calls
  whose candidate sets have the same elements and whose unguessed sets have the same
  elements give the same result (the same code and worst case, or the same exception),
  whatever the iteration orders are and whichever unguessed code \<^verbatim>\<open>pop()\<close> takes first.
  Each call gets two different set objects, as in every call of the drivers.
\<close>

theorem get_next_guess_deterministic:
  assumes "sc \<noteq> ug" "sc' \<noteq> ug'"
    and "set (h sc) = set (h' sc')" "set (h ug) = set (h' ug')"
    and "distinct (h sc)" "distinct (h' sc')"
    and "\<forall>c \<in> set (h ug). valid_code c"
  shows "fst (get_next_guess h sc ug) = fst (get_next_guess h' sc' ug')"
proof (cases "h ug = []")
  case True
  with assms(4) have "h' ug' = []" by simp
  with True show ?thesis by (simp add: get_next_guess_Nil)
next
  case ug: False
  with assms(4) have ug': "h' ug' \<noteq> []" by auto
  show ?thesis
  proof (cases "h sc = []")
    case True
    with assms(3) have "h' sc' = []" by simp
    with True ug ug' assms(1,2) show ?thesis by (simp add: get_next_guess_no_candidates)
  next
    case sc: False
    with assms(3) have sc': "h' sc' \<noteq> []" by auto
    have el: "\<And>v. elim v (h sc) = elim v (h' sc')"
      using assms(3,5,6) by (simp add: elim_worst_case)
    have ci: "\<And>v. code_in v (h sc) = code_in v (h' sc')"
      using assms(3) by (rule code_in_set_cong)
    have gq: "\<And>a b. geq (h sc) a b = geq (h' sc') a b"
      by (simp add: geq_def el ci)
    from get_next_guess_best [OF assms(1) sc ug] obtain r where
      r: "fst (get_next_guess h sc ug) = Inr (r, elim r (h sc))" "r \<in> set (h ug)"
         "\<forall>v \<in> set (h ug). geq (h sc) r v"
      by blast
    from get_next_guess_best [OF assms(2) sc' ug'] obtain r' where
      r': "fst (get_next_guess h' sc' ug') = Inr (r', elim r' (h' sc'))" "r' \<in> set (h' ug')"
          "\<forall>v \<in> set (h' ug'). geq (h' sc') r' v"
      by blast
    have "geq (h sc) r r'" using r(3) r'(2) assms(4) by simp
    moreover have "geq (h sc) r' r" using r'(3) r(2) assms(4) by (simp add: gq)
    moreover have "valid_code r" "valid_code r'" using r(2) r'(2) assms(4,7) by auto
    ultimately have "r = r'" by (rule geq_antisym)
    with r(1) r'(1) show ?thesis by (simp add: el)
  qed
qed


theorem get_next_guess_deterministic_witness:
  "(0::nat) \<noteq> 1 \<and> (5::nat) \<noteq> 2 \<and>
   set (example_store 0) = set (example_store_reordered 5) \<and>
   set (example_store 1) = set (example_store_reordered 2) \<and>
   distinct (example_store 0) \<and> distinct (example_store_reordered 5) \<and>
   list_all valid_code (example_store 1) \<and>
   example_store 1 \<noteq> example_store_reordered 2 \<and>
   fst (get_next_guess example_store 0 1) = fst (get_next_guess example_store_reordered 5 2)"
proof -
  have h1: "(0::nat) \<noteq> 1" and h2: "(5::nat) \<noteq> 2" by simp_all
  have h3: "set (example_store 0) = set (example_store_reordered 5)"
    by (auto simp: example_store_def example_store_reordered_def)
  have h4: "set (example_store 1) = set (example_store_reordered 2)"
    by (auto simp: example_store_def example_store_reordered_def)
  have h5: "distinct (example_store 0)" by (simp add: example_store_def)
  have h6: "distinct (example_store_reordered 5)" by (simp add: example_store_reordered_def)
  have va: "list_all valid_code (example_store 1)"
    by (simp add: example_store_def valid_code_def CODE_PEG_COLORS_def)
  then have h7: "\<forall>c \<in> set (example_store 1). valid_code c"
    by (simp add: list_all_iff)
  have ne: "example_store 1 \<noteq> example_store_reordered 2"
    by (simp add: example_store_def example_store_reordered_def)
  from h1 h2 h3 h4 h5 h6 va ne get_next_guess_deterministic [OF h1 h2 h3 h4 h5 h6 h7]
  show ?thesis by (intro conjI)
qed

text \<open>
  Claim C8. For every candidate set, \<^verbatim>\<open>get_next_guess\<close> called with an empty unguessed set
  raises its exception for the empty domain, \<^verbatim>\<open>Exception('Ran out of unguessed codes')\<close>,
  and leaves the store as it was.
\<close>

theorem get_next_guess_empty_unguessed:
  assumes "h ug = []"
  shows "get_next_guess h sc ug = (Inl (Exception ''Ran out of unguessed codes''), h)"
  using assms by (simp add: get_next_guess_def)

theorem get_next_guess_empty_unguessed_witness:
  "example_store 7 = [] \<and>
   get_next_guess example_store 0 7 = (Inl (Exception ''Ran out of unguessed codes''), example_store)"
proof -
  have h: "example_store 7 = []" by (simp add: example_store_def)
  from h get_next_guess_empty_unguessed [of example_store 7 0, OF h] show ?thesis by (intro conjI)
qed

end
